theory Spec2Isabelle
  imports Main "HOL-Library.List_Lexorder" "HOL-Library.Product_Lexorder" "HOL-Library.Multiset"
begin

section \<open>Python values used by the attendance programs\<close>

text \<open>
  A Python \<open>str\<close> is a sequence of Unicode code points: \<open>len\<close> counts code points and
  comparison is lexicographic on them. A string is therefore a list of code points
  (natural numbers), ordered by the lexicographic order of lists.
\<close>

type_synonym pystr = "nat list"

text \<open>The code points for which \<open>str.isspace\<close> holds; \<open>str.strip()\<close> removes exactly these.\<close>

definition py_isspace :: "nat \<Rightarrow> bool" where
  "py_isspace c \<longleftrightarrow>
     (9 \<le> c \<and> c \<le> 13) \<or> (28 \<le> c \<and> c \<le> 32) \<or> c = 133 \<or> c = 160 \<or> c = 5760 \<or>
     (8192 \<le> c \<and> c \<le> 8202) \<or> c = 8232 \<or> c = 8233 \<or> c = 8239 \<or> c = 8287 \<or> c = 12288"

text \<open>\<open>s.strip()\<close>: drop the leading and the trailing white space.\<close>

definition py_strip :: "pystr \<Rightarrow> pystr" where
  "py_strip s = rev (dropWhile py_isspace (rev (dropWhile py_isspace s)))"

text \<open>
  \<open>s.split(sep)\<close> for a one-character separator: the pieces between the separators, so
  the empty string gives one empty piece and \<open>n\<close> separators give \<open>n + 1\<close> pieces.
\<close>

fun split_char :: "nat \<Rightarrow> pystr \<Rightarrow> pystr list" where
  "split_char sep [] = [[]]"
| "split_char sep (c # cs) =
     (if c = sep then [] # split_char sep cs
      else (case split_char sep cs of [] \<Rightarrow> [[c]] | l # ls \<Rightarrow> (c # l) # ls))"

text \<open>The line feed, the separator of \<open>text.split('\n')\<close>.\<close>

definition LF :: nat where
  "LF = 10"

text \<open>\<open>sep.join(xs)\<close>.\<close>

fun py_join :: "pystr \<Rightarrow> pystr list \<Rightarrow> pystr" where
  "py_join sep [] = []"
| "py_join sep [x] = x"
| "py_join sep (x # y # ys) = x @ sep @ py_join sep (y # ys)"

datatype py_exception =
  ServiceError | AttributeError | KeyError | GrabError | OSError | UnicodeEncodeError | CsvError

section \<open>Name extraction: the text post-processing\<close>

text \<open>
  The call to the inference service is external. Its outcome is an input of the model:
  \<open>Inl e\<close> when the call raises, \<open>Inr None\<close> when the message has no content (then
  \<open>.strip()\<close> raises AttributeError), \<open>Inr (Some content)\<close> otherwise.
\<close>

type_synonym service_reply = "py_exception + pystr option"

subsection \<open>app.py, extract_names_with_openai, lines 53 to 64\<close>

text \<open>Line 54: the stripped non-blank lines of the stripped text.\<close>

definition app_names :: "pystr \<Rightarrow> pystr list" where
  "app_names content =
     (let text = py_strip content
      in [py_strip line. line \<leftarrow> split_char LF text, py_strip line \<noteq> []])"

text \<open>Lines 57 to 62: the loop over \<open>names\<close>, with its two variables \<open>seen\<close> and \<open>unique_names\<close>.\<close>

fun app_unique_loop :: "pystr list \<Rightarrow> pystr set \<Rightarrow> pystr list \<Rightarrow> pystr list" where
  "app_unique_loop [] seen unique_names = unique_names"
| "app_unique_loop (name # names) seen unique_names =
     (if name \<noteq> [] \<and> name \<notin> seen \<and> length name \<ge> 2
      then app_unique_loop names (insert name seen) (unique_names @ [name])
      else app_unique_loop names seen unique_names)"

definition app_unique_names :: "pystr \<Rightarrow> pystr list" where
  "app_unique_names content = app_unique_loop (app_names content) {} []"

definition extract_names_with_openai :: "service_reply \<Rightarrow> py_exception + pystr list" where
  "extract_names_with_openai reply =
     (case reply of
        Inl e \<Rightarrow> Inl e
      | Inr None \<Rightarrow> Inl AttributeError
      | Inr (Some content) \<Rightarrow> Inr (app_unique_names content))"

subsection \<open>zoom_attendance.py, _extract_names_with_openai, lines 333 to 344\<close>

definition gui_names :: "pystr \<Rightarrow> pystr list" where
  "gui_names content =
     (let text = py_strip content
      in [py_strip line. line \<leftarrow> split_char LF text, py_strip line \<noteq> []])"

fun gui_unique_loop :: "pystr list \<Rightarrow> pystr set \<Rightarrow> pystr list \<Rightarrow> pystr list" where
  "gui_unique_loop [] seen unique_names = unique_names"
| "gui_unique_loop (name # names) seen unique_names =
     (if name \<noteq> [] \<and> name \<notin> seen \<and> length name \<ge> 2
      then gui_unique_loop names (insert name seen) (unique_names @ [name])
      else gui_unique_loop names seen unique_names)"

definition gui_unique_names :: "pystr \<Rightarrow> pystr list" where
  "gui_unique_names content = gui_unique_loop (gui_names content) {} []"

definition gui_extract_names_with_openai :: "service_reply \<Rightarrow> py_exception + pystr list" where
  "gui_extract_names_with_openai reply =
     (case reply of
        Inl e \<Rightarrow> Inl e
      | Inr None \<Rightarrow> Inl AttributeError
      | Inr (Some content) \<Rightarrow> Inr (gui_unique_names content))"

section \<open>The attendance ledger\<close>

text \<open>
  \<open>attendance_data\<close> is a Python dict from a name to the list of its record times. A dict
  keeps its keys in insertion order, so it is an association list whose keys are distinct;
  a time is the string \<open>strftime\<close> returned.
\<close>

type_synonym ledger = "(pystr \<times> pystr list) list"

definition keys :: "ledger \<Rightarrow> pystr list" where
  "keys d = map fst d"

text \<open>The invariant of a dict: no key twice.\<close>

definition is_dict :: "ledger \<Rightarrow> bool" where
  "is_dict d \<longleftrightarrow> distinct (keys d)"

text \<open>\<open>name in d\<close>.\<close>

definition dict_contains :: "ledger \<Rightarrow> pystr \<Rightarrow> bool" where
  "dict_contains d name \<longleftrightarrow> name \<in> set (keys d)"

text \<open>\<open>d[name]\<close> as a read: \<open>None\<close> is the KeyError.\<close>

definition dict_get :: "ledger \<Rightarrow> pystr \<Rightarrow> pystr list option" where
  "dict_get d name = map_of d name"

text \<open>\<open>d[name] = v\<close>: a present key keeps its place, a new key goes last.\<close>

fun dict_set :: "ledger \<Rightarrow> pystr \<Rightarrow> pystr list \<Rightarrow> ledger" where
  "dict_set [] name v = [(name, v)]"
| "dict_set ((k, w) # d) name v =
     (if k = name then (k, v) # d else (k, w) # dict_set d name v)"

text \<open>
  The loop of app.py lines 136 to 140, which is the loop of zoom_attendance.py lines 280
  to 284 word for word. The dict is mutated in place, so when a statement raises, the dict
  stays as the statements before it left it: the result is the dict together with either
  the exception or \<open>new_count\<close>. \<open>d[name].append(now)\<close> reads \<open>d[name]\<close> (KeyError when
  absent) and extends that list.
\<close>

fun merge_loop :: "pystr list \<Rightarrow> pystr \<Rightarrow> ledger \<Rightarrow> nat \<Rightarrow> ledger \<times> (py_exception + nat)" where
  "merge_loop [] now d new_count = (d, Inr new_count)"
| "merge_loop (name # names) now d new_count =
     (let (d1, new_count1) =
            (if \<not> dict_contains d name then (dict_set d name [], new_count + 1)
             else (d, new_count))
      in case dict_get d1 name of
           None \<Rightarrow> (d1, Inl KeyError)
         | Some times' \<Rightarrow> merge_loop names now (dict_set d1 name (times' @ [now])) new_count1)"

text \<open>Lines 134 to 140: \<open>new_count = 0\<close>, then the loop.\<close>

definition merge :: "ledger \<Rightarrow> pystr list \<Rightarrow> pystr \<Rightarrow> ledger \<times> (py_exception + nat)" where
  "merge d names now = merge_loop names now d 0"

text \<open>The record times of a name, none when the name is absent.\<close>

definition records :: "ledger \<Rightarrow> pystr \<Rightarrow> pystr list" where
  "records d name = (case dict_get d name of None \<Rightarrow> [] | Some times' \<Rightarrow> times')"

text \<open>What the user is told after a submission.\<close>

datatype feedback = Success nat nat | Warning | Error py_exception

text \<open>
  app.py, main, lines 127 to 147: one press of the analyse button. \<open>now\<close> is read from the
  clock once, before the loop.
\<close>

definition analyze :: "ledger \<Rightarrow> service_reply \<Rightarrow> pystr \<Rightarrow> ledger \<times> feedback" where
  "analyze d reply now =
     (case extract_names_with_openai reply of
        Inl e \<Rightarrow> (d, Error e)
      | Inr names \<Rightarrow>
          if names \<noteq> [] then
            (case merge d names now of
               (d', Inl e) \<Rightarrow> (d', Error e)
             | (d', Inr new_count) \<Rightarrow> (d', Success (length names) new_count))
          else (d, Warning))"

text \<open>
  zoom_attendance.py, _do_capture, lines 251 to 293. The screen grab is external and may
  raise (\<open>grab = Some e\<close>); everything is inside one try block.
\<close>

definition do_capture ::
  "ledger \<Rightarrow> py_exception option \<Rightarrow> service_reply \<Rightarrow> pystr \<Rightarrow> ledger \<times> feedback" where
  "do_capture d grab reply now =
     (case grab of
        Some e \<Rightarrow> (d, Error e)
      | None \<Rightarrow>
          (case gui_extract_names_with_openai reply of
             Inl e \<Rightarrow> (d, Error e)
           | Inr names \<Rightarrow>
               if names = [] then (d, Warning)
               else
                 (case merge d names now of
                    (d', Inl e) \<Rightarrow> (d', Error e)
                  | (d', Inr new_count) \<Rightarrow> (d', Success (length names) new_count))))"

text \<open>
  The clear itself: app.py line 195, \<open>attendance_data = {}\<close>, run when the clear button is
  pressed, and zoom_attendance.py line 403, \<open>self.attendance_data.clear()\<close>.
\<close>

definition clear :: "ledger \<Rightarrow> ledger" where
  "clear d = []"

text \<open>
  zoom_attendance.py, clear_data, lines 397 to 405, the handler of the clear button: nothing
  happens on an empty dict; otherwise the user is asked, \<open>confirmed\<close> is the answer of the
  dialog, and the clear of line 403 runs when the answer is yes.
\<close>

definition clear_data :: "ledger \<Rightarrow> bool \<Rightarrow> ledger" where
  "clear_data d confirmed = (if d = [] then d else if confirmed then clear d else d)"

section \<open>Report and export\<close>

text \<open>\<open>times[0] if times else ""\<close>.\<close>

definition first_time :: "pystr list \<Rightarrow> pystr" where
  "first_time times' = (case times' of [] \<Rightarrow> [] | t # _ \<Rightarrow> t)"

text \<open>
  \<open>sorted(d.items())\<close> sorts the (name, times) pairs by Python's tuple order, the
  lexicographic order of pairs, which is the order of this type.
  app.py lines 155 to 161: a row is name, first record time, number of records.
\<close>

definition build_report :: "ledger \<Rightarrow> (pystr \<times> pystr \<times> nat) list" where
  "build_report d = map (\<lambda>(name, times'). (name, first_time times', length times')) (sort d)"

text \<open>zoom_attendance.py, _update_list, lines 353 to 356: the rows put into the tree view.\<close>

definition update_list :: "ledger \<Rightarrow> (pystr \<times> pystr \<times> nat) list" where
  "update_list d = map (\<lambda>(name, times'). (name, first_time times', length times')) (sort d)"

text \<open>The separator of the all-times column, \<open>"; "\<close>.\<close>

definition semicolon_space :: pystr where
  "semicolon_space = [59, 32]"

text \<open>app.py lines 171 to 178: the rows of \<open>csv_data\<close>.\<close>

definition csv_data :: "ledger \<Rightarrow> (pystr \<times> pystr \<times> nat \<times> pystr) list" where
  "csv_data d =
     map (\<lambda>(name, times'). (name, first_time times', length times', py_join semicolon_space times'))
       (sort d)"

text \<open>zoom_attendance.py, export_csv, lines 385 to 389: the rows given to the writer.\<close>

definition export_rows :: "ledger \<Rightarrow> (pystr \<times> pystr \<times> nat \<times> pystr) list" where
  "export_rows d =
     map (\<lambda>(name, times'). (name, first_time times', length times', py_join semicolon_space times'))
       (sort d)"

section \<open>The exported text\<close>

text \<open>
  Both exports write the rows with the writer of Python's csv module, which is part of
  Python and not of the repository; it is modelled here as the module implements it:
  delimiter comma, quote character double quote, doubled quotes, minimal quoting.
\<close>

definition COMMA :: nat where
  "COMMA = 44"

definition QUOTE :: nat where
  "QUOTE = 34"

definition CR :: nat where
  "CR = 13"

text \<open>
  zoom_attendance.py, export_csv, uses \<open>csv.writer(f)\<close>: the default dialect, whose line
  terminator is CR LF, on a file opened with \<open>newline=''\<close>, so the text is written as the
  writer builds it. With this line terminator a field is quoted when it holds the
  delimiter, a quote, CR or LF.
\<close>

definition needs_quote :: "pystr \<Rightarrow> bool" where
  "needs_quote f \<longleftrightarrow> (\<exists>c \<in> set f. c = COMMA \<or> c = QUOTE \<or> c = CR \<or> c = LF)"

text \<open>Inside a quoted field every quote is doubled.\<close>

definition double_quotes :: "pystr \<Rightarrow> pystr" where
  "double_quotes f = concat (map (\<lambda>c. if c = QUOTE then [QUOTE, QUOTE] else [c]) f)"

definition quote_field :: "pystr \<Rightarrow> pystr" where
  "quote_field f = (if needs_quote f then QUOTE # double_quotes f @ [QUOTE] else f)"

text \<open>
  \<open>writer.writerow(fields)\<close>: the fields joined by commas, then CR LF. A row of one empty
  field is written as two quotes, so that the line is not empty.
\<close>

definition writerow :: "pystr list \<Rightarrow> pystr" where
  "writerow fields =
     (if fields = [[]] then [QUOTE, QUOTE] else py_join [COMMA] (map quote_field fields))
     @ [CR, LF]"

text \<open>\<open>str(n)\<close> for a count: its decimal digits.\<close>

fun py_str_nat :: "nat \<Rightarrow> pystr" where
  "py_str_nat n = (if n < 10 then [48 + n] else py_str_nat (n div 10) @ [48 + n mod 10])"

text \<open>The header row of line 383, which is also the list of the column names of app.py.\<close>

definition header :: "pystr list" where
  "header =
     [[21517, 21069],
      [21021, 22238, 35352, 37682, 26178, 21051],
      [35352, 37682, 22238, 25968],
      [20840, 35352, 37682, 26178, 21051]]"

text \<open>The fields of a row as the writer writes them: the count goes through \<open>str\<close>.\<close>

definition row_fields :: "pystr \<times> pystr \<times> nat \<times> pystr \<Rightarrow> pystr list" where
  "row_fields row =
     (case row of (name, first_time', count', all_times) \<Rightarrow>
        [name, first_time', py_str_nat count', all_times])"

text \<open>Lines 382 to 389: the header row, then one row per item of the sorted dict.\<close>

definition csv_text :: "ledger \<Rightarrow> pystr" where
  "csv_text d = writerow header @ concat (map (\<lambda>row. writerow (row_fields row)) (export_rows d))"

text \<open>
  The file is opened with \<open>encoding='utf-8-sig'\<close>, and app.py encodes the text the same
  way. UTF-8 encodes every code point but the surrogates (D800 to DFFF), which a Python
  string can hold unpaired; on one of them the encoder raises UnicodeEncodeError.
\<close>

definition is_surrogate :: "nat \<Rightarrow> bool" where
  "is_surrogate c \<longleftrightarrow> 55296 \<le> c \<and> c \<le> 57343"

definition encodable :: "pystr \<Rightarrow> bool" where
  "encodable s \<longleftrightarrow> \<not> (\<exists>c \<in> set s. is_surrogate c)"

text \<open>
  export_csv, lines 361 to 395: a warning and no file for an empty dict; nothing when the
  save dialog is cancelled; otherwise the text is written, unless opening the file raises
  (\<open>io_error\<close>) or the text cannot be encoded; both exceptions end in the error dialog.
\<close>

datatype export_outcome = NoData | Cancelled | Saved pystr | WriteFailed py_exception

definition export_csv :: "ledger \<Rightarrow> bool \<Rightarrow> py_exception option \<Rightarrow> export_outcome" where
  "export_csv d path_chosen io_error =
     (if d = [] then NoData
      else if \<not> path_chosen then Cancelled
      else (case io_error of
              Some e \<Rightarrow> WriteFailed e
            | None \<Rightarrow>
                if encodable (csv_text d) then Saved (csv_text d)
                else WriteFailed UnicodeEncodeError))"

subsection \<open>The web export\<close>






section \<open>Reading the exported text back\<close>














section \<open>Reachable ledgers\<close>

text \<open>
  The dict starts empty (app.py line 79, zoom_attendance.py line 110) and is changed only
  by the merge loop, inside a submission, and by the two clear operations.
\<close>

inductive reachable :: "ledger \<Rightarrow> bool" where
  initial: "reachable []"
| by_merge: "reachable d \<Longrightarrow> reachable (fst (merge d names now))"
| by_analyze: "reachable d \<Longrightarrow> reachable (fst (analyze d reply now))"
| by_do_capture: "reachable d \<Longrightarrow> reachable (fst (do_capture d grab reply now))"
| by_clear: "reachable d \<Longrightarrow> reachable (clear d)"
| by_clear_data: "reachable d \<Longrightarrow> reachable (clear_data d confirmed)"

section \<open>The two normalizers agree\<close>

lemma gui_unique_loop_eq: "gui_unique_loop names seen acc = app_unique_loop names seen acc"
  by (induction names arbitrary: seen acc) simp_all

lemma gui_names_eq: "gui_names content = app_names content"
  by (simp add: gui_names_def app_names_def)

lemma gui_unique_names_eq: "gui_unique_names content = app_unique_names content"
  by (simp add: gui_unique_names_def app_unique_names_def gui_unique_loop_eq gui_names_eq)

text \<open>
  C9. The normalizer of app.py and the normalizer of zoom_attendance.py give the same
  ordered sequence of unique names on every response text, and the two extraction
  functions give the same result (names or exception) on every outcome of the service call.
\<close>

theorem normalizers_agree:
  "app_unique_names content = gui_unique_names content \<and>
   extract_names_with_openai reply = gui_extract_names_with_openai reply"
  by (simp add: gui_unique_names_eq extract_names_with_openai_def
      gui_extract_names_with_openai_def split: sum.split option.split)

section \<open>The dict operations and the merge loop\<close>

lemma dict_get_set: "dict_get (dict_set d k v) n = (if n = k then Some v else dict_get d n)"
  by (induction d k v rule: dict_set.induct) (auto simp: dict_get_def)

lemma keys_dict_set:
  "keys (dict_set d k v) = (if k \<in> set (keys d) then keys d else keys d @ [k])"
  by (induction d k v rule: dict_set.induct) (auto simp: keys_def)

lemma dict_get_None_iff: "dict_get d n = None \<longleftrightarrow> n \<notin> set (keys d)"
  by (simp add: dict_get_def keys_def map_of_eq_None_iff)

lemma dict_get_absent: "n \<notin> set (keys d) \<Longrightarrow> dict_get d n = None"
  by (simp add: dict_get_None_iff)

lemma records_absent: "n \<notin> set (keys d) \<Longrightarrow> records d n = []"
  by (simp add: records_def dict_get_absent)

lemma merge_loop_Cons:
  "merge_loop (name # names) now d nc =
     merge_loop names now
       (dict_set (if dict_contains d name then d else dict_set d name []) name (records d name @ [now]))
       (if dict_contains d name then nc else Suc nc)"
  by (auto simp: dict_get_set dict_contains_def records_def dict_get_absent
      dict_get_None_iff split: option.splits)

lemma keys_touch:
  "keys (dict_set (if dict_contains d name then d else dict_set d name []) name v) =
     (if name \<in> set (keys d) then keys d else keys d @ [name])"
  by (simp add: keys_dict_set dict_contains_def)

lemma dict_get_touch:
  "dict_get (dict_set (if dict_contains d name then d else dict_set d name []) name v) n =
     (if n = name then Some v else dict_get d n)"
  by (simp add: dict_get_set)

lemma records_touch:
  "records (dict_set (if dict_contains d name then d else dict_set d name []) name v) n =
     (if n = name then v else records d n)"
  by (simp add: records_def dict_get_touch)

lemma merge_loop_total: "\<exists>d' nc'. merge_loop names now d nc = (d', Inr nc')"
proof (induction names arbitrary: d nc)
  case Nil show ?case by simp
next
  case (Cons name names)
  show ?case unfolding merge_loop_Cons by (rule Cons.IH)
qed

lemma merge_loop_get:
  "dict_get (fst (merge_loop names now d nc)) n =
     (if n \<in> set names then Some (records d n @ replicate (count_list names n) now)
      else dict_get d n)"
proof (induction names arbitrary: d nc)
  case Nil show ?case by simp
next
  case (Cons name names)
  show ?case unfolding merge_loop_Cons Cons.IH
    by (auto simp: records_touch dict_get_touch replicate_append_same)
qed

lemma set_keys_touch:
  "set (keys (dict_set (if dict_contains d name then d else dict_set d name []) name v)) =
     insert name (set (keys d))"
  by (auto simp: keys_touch)

lemma card_new_names:
  "(if name \<in> K then 0 else 1) + card (set names - insert name K) =
     card (set (name # names) - K)"
proof (cases "name \<in> K")
  case True
  then have "set (name # names) - K = set names - insert name K" by auto
  then have "card (set (name # names) - K) = card (set names - insert name K)"
    by (rule arg_cong)
  with True show ?thesis by (simp only: if_True add_0)
next
  case False
  then have "set (name # names) - K = insert name (set names - insert name K)" by auto
  then have "card (set (name # names) - K) = card (insert name (set names - insert name K))"
    by (rule arg_cong)
  also have "\<dots> = Suc (card (set names - insert name K))"
    by (rule card_insert_disjoint) auto
  finally show ?thesis using False by (simp only: if_False plus_1_eq_Suc)
qed

lemma merge_loop_count:
  "snd (merge_loop names now d nc) = Inr (nc + card (set names - set (keys d)))"
proof (induction names arbitrary: d nc)
  case Nil show ?case by simp
next
  case (Cons name names)
  have "(if dict_contains d name then nc else Suc nc) + card (set names - insert name (set (keys d)))
      = nc + ((if name \<in> set (keys d) then 0 else 1) + card (set names - insert name (set (keys d))))"
    by (simp add: dict_contains_def)
  also have "\<dots> = nc + card (set (name # names) - set (keys d))"
    by (simp only: card_new_names)
  finally show ?case unfolding merge_loop_Cons Cons.IH set_keys_touch by simp
qed

lemma merge_loop_keys:
  "distinct names \<Longrightarrow>
   keys (fst (merge_loop names now d nc)) = keys d @ filter (\<lambda>n. n \<notin> set (keys d)) names"
proof (induction names arbitrary: d nc)
  case Nil show ?case by simp
next
  case (Cons name names)
  then have d: "distinct names" and nn: "name \<notin> set names" by auto
  have "filter (\<lambda>n. n \<noteq> name \<and> n \<notin> set (keys d)) names = filter (\<lambda>n. n \<notin> set (keys d)) names"
    using nn by (intro filter_cong) auto
  then show ?case unfolding merge_loop_Cons Cons.IH[OF d]
    by (auto simp: keys_touch)
qed

lemma merge_loop_prefix:
  "\<exists>new. keys (fst (merge_loop names now d nc)) = keys d @ new"
proof (induction names arbitrary: d nc)
  case Nil show ?case by simp
next
  case (Cons name names)
  obtain new where "keys (fst (merge_loop names now
       (dict_set (if dict_contains d name then d else dict_set d name []) name (records d name @ [now]))
       (if dict_contains d name then nc else Suc nc))) =
      keys (dict_set (if dict_contains d name then d else dict_set d name []) name (records d name @ [now])) @ new"
    using Cons.IH by blast
  then show ?case unfolding merge_loop_Cons by (auto simp: keys_touch)
qed

lemma is_dict_set: "is_dict d \<Longrightarrow> is_dict (dict_set d k v)"
  by (simp add: is_dict_def keys_dict_set)

lemma merge_loop_is_dict: "is_dict d \<Longrightarrow> is_dict (fst (merge_loop names now d nc))"
proof (induction names arbitrary: d nc)
  case Nil then show ?case by simp
next
  case (Cons name names)
  show ?case unfolding merge_loop_Cons
    by (rule Cons.IH) (simp add: is_dict_set Cons.prems)
qed

lemma merge_total: "\<exists>d' nc. merge d names now = (d', Inr nc)"
  unfolding merge_def by (rule merge_loop_total)

lemma merge_eq:
  "merge d names now = (fst (merge d names now), Inr (card (set names - set (keys d))))"
proof -
  have "snd (merge d names now) = Inr (card (set names - set (keys d)))"
    unfolding merge_def by (simp add: merge_loop_count)
  then show ?thesis by (simp add: prod_eq_iff)
qed

lemma card_absent:
  assumes "distinct names"
  shows "card (set names - set (keys d)) = length (filter (\<lambda>name. \<not> dict_contains d name) names)"
proof -
  have "set names - set (keys d) = set (filter (\<lambda>name. \<not> dict_contains d name) names)"
    by (auto simp: dict_contains_def)
  moreover have "distinct (filter (\<lambda>name. \<not> dict_contains d name) names)"
    using assms by simp
  ultimately show ?thesis by (simp only: distinct_card)
qed

lemma count_list_distinct: "distinct xs \<Longrightarrow> x \<in> set xs \<Longrightarrow> count_list xs x = 1"
  by (induction xs) auto

lemma merge_get_distinct:
  assumes "distinct names"
  shows "dict_get (fst (merge d names now)) name =
     (if name \<in> set names then Some (records d name @ [now]) else dict_get d name)"
  unfolding merge_def merge_loop_get using assms by (simp add: count_list_distinct)

lemma merge_keys:
  assumes "distinct names"
  shows "keys (fst (merge d names now)) = keys d @ filter (\<lambda>name. \<not> dict_contains d name) names"
  unfolding merge_def using merge_loop_keys[OF assms] by (simp add: dict_contains_def)

text \<open>
  C1. For every ledger, every sequence of unique names and the one time stamp of the
  submission, the merge loop does not raise; it adds the names absent from the ledger as
  new keys, in their order, after the old keys; every input name, new or old, ends with its
  old records followed by the time stamp once (a new name with the time stamp alone); and
  new_count is the number of input names that were absent before the call.
\<close>

theorem merge_postcondition:
  assumes "distinct names"
  shows "\<exists>d'. merge d names now =
           (d', Inr (length (filter (\<lambda>name. \<not> dict_contains d name) names))) \<and>
         keys d' = keys d @ filter (\<lambda>name. \<not> dict_contains d name) names \<and>
         (\<forall>name \<in> set names. dict_get d' name = Some (records d name @ [now])) \<and>
         (\<forall>name \<in> set names. \<not> dict_contains d name \<longrightarrow> dict_get d' name = Some [now]) \<and>
         (is_dict d \<longrightarrow> is_dict d')"
proof (intro exI conjI)
  show "merge d names now =
      (fst (merge d names now), Inr (length (filter (\<lambda>name. \<not> dict_contains d name) names)))"
    using merge_eq[of d names now] card_absent[OF assms, of d] by simp
  show "keys (fst (merge d names now)) = keys d @ filter (\<lambda>name. \<not> dict_contains d name) names"
    by (rule merge_keys[OF assms])
  show "\<forall>name \<in> set names. dict_get (fst (merge d names now)) name = Some (records d name @ [now])"
    by (simp add: merge_get_distinct[OF assms])
  show "\<forall>name \<in> set names. \<not> dict_contains d name \<longrightarrow>
      dict_get (fst (merge d names now)) name = Some [now]"
    by (simp add: merge_get_distinct[OF assms] dict_contains_def records_absent)
  show "is_dict d \<longrightarrow> is_dict (fst (merge d names now))"
    unfolding merge_def by (simp add: merge_loop_is_dict)
qed

theorem merge_postcondition_witness:
  "distinct [[65,108],[66,111::nat]] \<and>
   merge [([66,111], [[49]])] [[65,108],[66,111]] [50] =
     ([([66,111], [[49],[50]]), ([65,108], [[50]])], Inr 1)"
proof -
  have h: "distinct [[65,108],[66,111::nat]]" by simp
  obtain d' where
    m: "merge [([66,111], [[49]])] [[65,108],[66,111]] [50] =
          (d', Inr (length (filter (\<lambda>name. \<not> dict_contains [([66,111], [[49]])] name) [[65,108],[66,111]])))"
    using merge_postcondition[OF h, of "[([66,111], [[49]])]" "[50]"] by blast
  have "fst (merge [([66,111], [[49]])] [[65,108],[66,111]] [50]) = [([66,111], [[49],[50]]), ([65,108], [[50]])]"
    by (simp add: merge_def dict_contains_def dict_get_def keys_def)
  with m h show ?thesis by (simp add: dict_contains_def keys_def)
qed

lemma keys_merge_set: "set (keys (fst (merge d names now))) = set (keys d) \<union> set names"
proof -
  have "dict_get (fst (merge d names now)) n = None \<longleftrightarrow> n \<notin> set (keys d) \<union> set names" for n
    unfolding merge_def merge_loop_get by (simp add: dict_get_None_iff)
  then have "n \<in> set (keys (fst (merge d names now))) \<longleftrightarrow> n \<in> set (keys d) \<union> set names" for n
    unfolding dict_get_None_iff by blast
  then show ?thesis by blast
qed

text \<open>
  C3. Merging the same list of unique names twice, with any two time stamps, is not
  idempotent: the second merge reports new_count 0, and every name of the list that the
  ledger did not hold before the first merge (every name, when the ledger was empty) ends
  with exactly the two records of the two merges. In general the two merges append the two
  time stamps to the old records of each name, and the ledger after the second merge
  differs from the ledger after the first whenever the list is not empty.
\<close>

theorem merge_twice:
  assumes "distinct names"
  shows "\<exists>d1 n1 d2. merge d names t1 = (d1, Inr n1) \<and> merge d1 names t2 = (d2, Inr 0) \<and>
           (\<forall>name \<in> set names. dict_get d2 name = Some (records d name @ [t1, t2])) \<and>
           (\<forall>name \<in> set names. \<not> dict_contains d name \<longrightarrow>
              dict_get d2 name = Some [t1, t2] \<and> length (records d2 name) = 2) \<and>
           (names \<noteq> [] \<longrightarrow> d2 \<noteq> d1)"
proof -
  let ?d1 = "fst (merge d names t1)"
  let ?d2 = "fst (merge ?d1 names t2)"
  have m1: "merge d names t1 = (?d1, Inr (card (set names - set (keys d))))"
    by (rule merge_eq)
  have c0: "card (set names - set (keys ?d1)) = 0"
    by (simp add: keys_merge_set)
  have m2: "merge ?d1 names t2 = (?d2, Inr 0)"
    using merge_eq[of ?d1 names t2] by (simp only: c0)
  have g1: "dict_get ?d1 name = Some (records d name @ [t1])" if "name \<in> set names" for name
    using that by (simp add: merge_get_distinct[OF assms])
  have g2: "dict_get ?d2 name = Some (records d name @ [t1, t2])" if "name \<in> set names" for name
    using that g1[OF that] by (simp add: merge_get_distinct[OF assms] records_def)
  have fresh: "dict_get ?d2 name = Some [t1, t2] \<and> length (records ?d2 name) = 2"
    if "name \<in> set names" "\<not> dict_contains d name" for name
    using that g2[OF that(1)] by (simp add: records_def dict_contains_def dict_get_absent)
  have ne: "?d2 \<noteq> ?d1" if "names \<noteq> []"
  proof
    assume eq: "?d2 = ?d1"
    from that obtain name where n: "name \<in> set names" by (cases names) auto
    from g1[OF n] g2[OF n] eq show False by simp
  qed
  from m1 m2 g2 fresh ne show ?thesis by blast
qed

theorem merge_twice_witness:
  "distinct [[65,108],[66,111::nat]] \<and>
   merge [] [[65,108],[66,111]] [49] = ([([65,108], [[49]]), ([66,111], [[49]])], Inr 2) \<and>
   merge [([65,108], [[49]]), ([66,111], [[49]])] [[65,108],[66,111]] [50] =
     ([([65,108], [[49],[50]]), ([66,111], [[49],[50]])], Inr 0)"
proof -
  have h: "distinct [[65,108],[66,111::nat]]" by simp
  have e1: "merge [] [[65,108],[66,111]] [49] = ([([65,108], [[49]]), ([66,111], [[49]])], Inr 2)"
    by (simp add: merge_def dict_contains_def dict_get_def keys_def)
  obtain d1 n1 d2 where
    "merge [] [[65,108],[66,111]] [49] = (d1, Inr n1)" and "merge d1 [[65,108],[66,111]] [50] = (d2, Inr 0)"
    and g: "\<forall>name \<in> set [[65,108],[66,111]]. dict_get d2 name = Some (records [] name @ [[49], [50]])"
    using merge_twice[OF h, of "[]" "[49]" "[50]"] by blast
  with e1 have m2: "merge [([65,108], [[49]]), ([66,111], [[49]])] [[65,108],[66,111]] [50] = (d2, Inr 0)"
    by simp
  have "fst (merge [([65,108], [[49]]), ([66,111], [[49]])] [[65,108],[66,111]] [50]) =
      [([65,108], [[49],[50]]), ([66,111], [[49],[50]])]"
    by (simp add: merge_def dict_contains_def dict_get_def keys_def)
  with m2 e1 h show ?thesis by simp
qed

text \<open>
  C10. A merge leaves every entry whose name is not in the submitted list as it was, with
  the same records, and removes no key: the old keys stay, in their places, and the keys
  after the merge are the old keys and the submitted names.
\<close>

theorem merge_frame:
  "(\<forall>name. name \<notin> set names \<longrightarrow>
      dict_get (fst (merge d names now)) name = dict_get d name) \<and>
   (\<exists>new. keys (fst (merge d names now)) = keys d @ new) \<and>
   set (keys (fst (merge d names now))) = set (keys d) \<union> set names"
proof (intro conjI allI impI)
  fix name assume "name \<notin> set names"
  then show "dict_get (fst (merge d names now)) name = dict_get d name"
    unfolding merge_def merge_loop_get by simp
next
  show "\<exists>new. keys (fst (merge d names now)) = keys d @ new"
    unfolding merge_def by (rule merge_loop_prefix)
next
  show "set (keys (fst (merge d names now))) = set (keys d) \<union> set names"
    by (rule keys_merge_set)
qed

theorem merge_frame_witness:
  "[67,97] \<notin> set [[65,108],[66,111::nat]] \<and>
   dict_get (fst (merge [([67,97], [[48]]), ([66,111], [[49]])] [[65,108],[66,111]] [50])) [67,97]
     = Some [[48]] \<and>
   keys (fst (merge [([67,97], [[48]]), ([66,111], [[49]])] [[65,108],[66,111]] [50]))
     = [[67,97],[66,111],[65,108]]"
proof -
  have h: "[67,97] \<notin> set [[65,108],[66,111::nat]]" by simp
  have "dict_get (fst (merge [([67,97], [[48]]), ([66,111], [[49]])] [[65,108],[66,111]] [50])) [67,97]
      = dict_get [([67,97], [[48]]), ([66,111], [[49]])] [67,97]"
    using merge_frame[of "[[65,108],[66,111]]" "[([67,97], [[48]]), ([66,111], [[49]])]" "[50]"] h
    by blast
  moreover have "keys (fst (merge [([67,97], [[48]]), ([66,111], [[49]])] [[65,108],[66,111]] [50]))
     = [[67,97],[66,111],[65,108]]"
    by (simp add: merge_def dict_contains_def dict_get_def keys_def)
  ultimately show ?thesis using h by (simp add: dict_get_def)
qed

section \<open>The normalizer\<close>

subsection \<open>The loop of the normalizer\<close>

lemma app_unique_loop_acc:
  "app_unique_loop names seen acc = acc @ app_unique_loop names seen []"
proof (induction names arbitrary: seen acc)
  case Nil show ?case by simp
next
  case (Cons name names)
  show ?case
    using Cons.IH[of "insert name seen" "acc @ [name]"] Cons.IH[of "insert name seen" "[name]"]
      Cons.IH[of seen acc]
    by simp
qed

lemma app_unique_loop_Cons:
  "app_unique_loop (name # names) seen [] =
     (if 2 \<le> length name \<and> name \<notin> seen then name # app_unique_loop names (insert name seen) []
      else app_unique_loop names seen [])"
  using app_unique_loop_acc[of names "insert name seen" "[name]"] by auto

lemma filter_upt_Suc:
  "filter P [0..<Suc n] = (if P 0 then [0] else []) @ map Suc (filter (\<lambda>i. P (Suc i)) [0..<n])"
proof -
  have "[0..<Suc n] = 0 # map Suc [0..<n]"
    by (simp add: upt_conv_Cons map_Suc_upt del: upt_Suc)
  then show ?thesis by (simp add: filter_map comp_def del: upt_Suc)
qed

lemma app_unique_loop_index:
  "app_unique_loop ls seen [] =
     map (\<lambda>i. ls ! i)
       (filter (\<lambda>i. 2 \<le> length (ls ! i) \<and> ls ! i \<notin> seen \<and> ls ! i \<notin> set (take i ls))
          [0..<length ls])"
proof (induction ls arbitrary: seen)
  case Nil show ?case by simp
next
  case (Cons l ls)
  show ?case
  proof (cases "2 \<le> length l \<and> l \<notin> seen")
    case True
    have "filter (\<lambda>i. 2 \<le> length (ls ! i) \<and> ls ! i \<notin> seen \<and> ls ! i \<noteq> l \<and> ls ! i \<notin> set (take i ls)) [0..<length ls]
        = filter (\<lambda>i. 2 \<le> length (ls ! i) \<and> ls ! i \<notin> insert l seen \<and> ls ! i \<notin> set (take i ls)) [0..<length ls]"
      by (intro filter_cong) auto
    with True show ?thesis
      unfolding app_unique_loop_Cons length_Cons filter_upt_Suc Cons.IH
      by (simp add: comp_def)
  next
    case False
    have "filter (\<lambda>i. 2 \<le> length (ls ! i) \<and> ls ! i \<notin> seen \<and> ls ! i \<noteq> l \<and> ls ! i \<notin> set (take i ls)) [0..<length ls]
        = filter (\<lambda>i. 2 \<le> length (ls ! i) \<and> ls ! i \<notin> seen \<and> ls ! i \<notin> set (take i ls)) [0..<length ls]"
      using False by (intro filter_cong) auto
    with False show ?thesis
      unfolding app_unique_loop_Cons length_Cons filter_upt_Suc Cons.IH
      by (auto simp add: comp_def)
  qed
qed

lemma app_unique_loop_filter:
  "app_unique_loop (filter (\<lambda>l. l \<noteq> []) ls) seen [] = app_unique_loop ls seen []"
proof (induction ls arbitrary: seen)
  case Nil show ?case by simp
next
  case (Cons l ls)
  show ?case
  proof (cases "l = []")
    case True
    then show ?thesis using Cons.IH[of seen] by simp
  next
    case False
    then have "filter (\<lambda>l. l \<noteq> []) (l # ls) = l # filter (\<lambda>l. l \<noteq> []) ls" by simp
    then show ?thesis
      by (simp only: app_unique_loop_Cons Cons.IH)
  qed
qed

subsection \<open>Splitting and stripping\<close>

lemma split_char_not_Nil: "split_char sep s \<noteq> []"
  by (induction s) (auto split: list.splits)

lemma split_char_Cons:
  "split_char sep (c # cs) =
     (if c = sep then [] # split_char sep cs
      else (c # hd (split_char sep cs)) # tl (split_char sep cs))"
  using split_char_not_Nil[of sep cs] by (cases "split_char sep cs") auto

lemma split_char_snoc:
  "split_char sep (s @ [c]) =
     (if c = sep then split_char sep s @ [[]]
      else butlast (split_char sep s) @ [last (split_char sep s) @ [c]])"
proof (induction s)
  case Nil show ?case by simp
next
  case (Cons a s)
  show ?case
  proof (cases "split_char sep s")
    case Nil with split_char_not_Nil show ?thesis by blast
  next
    case (Cons l ls)
    then show ?thesis using Cons.IH by (cases ls) (auto split: list.splits)
  qed
qed

lemma py_strip_Cons_space: "py_isspace c \<Longrightarrow> py_strip (c # l) = py_strip l"
  by (simp add: py_strip_def)

lemma py_strip_snoc_space: "py_isspace c \<Longrightarrow> py_strip (l @ [c]) = py_strip l"
  by (cases "\<forall>x\<in>set l. py_isspace x")
    (auto simp: py_strip_def dropWhile_append dest: set_dropWhileD)

lemma py_strip_Nil: "py_strip [] = []"
  by (simp add: py_strip_def)

lemma names_lstrip_step:
  assumes "py_isspace c"
  shows "filter (\<lambda>l. l \<noteq> []) (map py_strip (split_char sep (c # cs))) =
         filter (\<lambda>l. l \<noteq> []) (map py_strip (split_char sep cs))"
proof (cases "split_char sep cs")
  case Nil with split_char_not_Nil show ?thesis by blast
next
  case (Cons l ls)
  then show ?thesis using assms by (simp add: py_strip_Cons_space py_strip_Nil)
qed

lemma names_lstrip:
  "filter (\<lambda>l. l \<noteq> []) (map py_strip (split_char sep (dropWhile py_isspace s))) =
   filter (\<lambda>l. l \<noteq> []) (map py_strip (split_char sep s))"
proof (induction s)
  case Nil show ?case by simp
next
  case (Cons c cs)
  show ?case
  proof (cases "py_isspace c")
    case True
    then show ?thesis using Cons.IH names_lstrip_step[OF True, of sep cs] by simp
  next
    case False then show ?thesis by simp
  qed
qed

lemma names_rstrip_step:
  assumes "py_isspace c"
  shows "filter (\<lambda>l. l \<noteq> []) (map py_strip (split_char sep (s @ [c]))) =
         filter (\<lambda>l. l \<noteq> []) (map py_strip (split_char sep s))"
proof -
  have bl: "split_char sep s = butlast (split_char sep s) @ [last (split_char sep s)]"
    using split_char_not_Nil[of sep s] by simp
  show ?thesis
  proof (cases "c = sep")
    case True
    then show ?thesis by (simp add: split_char_snoc py_strip_Nil)
  next
    case False
    have "filter (\<lambda>l. l \<noteq> []) (map py_strip (butlast (split_char sep s) @ [last (split_char sep s) @ [c]]))
        = filter (\<lambda>l. l \<noteq> []) (map py_strip (butlast (split_char sep s) @ [last (split_char sep s)]))"
      using assms by (simp add: py_strip_snoc_space)
    with False show ?thesis by (simp only: split_char_snoc if_False bl[symmetric])
  qed
qed

lemma names_rstrip:
  "filter (\<lambda>l. l \<noteq> []) (map py_strip (split_char sep (rev (dropWhile py_isspace (rev s))))) =
   filter (\<lambda>l. l \<noteq> []) (map py_strip (split_char sep s))"
proof (induction s rule: rev_induct)
  case Nil show ?case by simp
next
  case (snoc c s)
  show ?case
  proof (cases "py_isspace c")
    case True
    then show ?thesis using snoc.IH names_rstrip_step[OF True, of sep s] by simp
  next
    case False then show ?thesis by simp
  qed
qed

lemma names_strip:
  "filter (\<lambda>l. l \<noteq> []) (map py_strip (split_char sep (py_strip s))) =
   filter (\<lambda>l. l \<noteq> []) (map py_strip (split_char sep s))"
  unfolding py_strip_def names_rstrip names_lstrip ..

lemma comprehension_filter_map:
  "concat (map (\<lambda>x. if P (f x) then [f x] else []) xs) = filter P (map f xs)"
  by (induction xs) simp_all

lemma app_names_eq:
  "app_names content = filter (\<lambda>l. l \<noteq> []) (map py_strip (split_char LF content))"
proof -
  have "app_names content =
      filter (\<lambda>l. l \<noteq> []) (map py_strip (split_char LF (py_strip content)))"
    unfolding app_names_def Let_def
    by (rule comprehension_filter_map[of "\<lambda>l. l \<noteq> []" py_strip])
  then show ?thesis by (simp only: names_strip)
qed

lemma app_unique_loop_set:
  "set (app_unique_loop ls seen []) = {l \<in> set ls. 2 \<le> length l \<and> l \<notin> seen}"
proof (induction ls arbitrary: seen)
  case Nil show ?case by simp
next
  case (Cons l ls)
  show ?case unfolding app_unique_loop_Cons using Cons.IH by auto
qed

lemma app_unique_loop_distinct: "distinct (app_unique_loop ls seen [])"
proof (induction ls arbitrary: seen)
  case Nil show ?case by simp
next
  case (Cons l ls)
  show ?case unfolding app_unique_loop_Cons using Cons.IH by (simp add: app_unique_loop_set)
qed

lemma app_unique_names_eq:
  "app_unique_names text = app_unique_loop (map py_strip (split_char LF text)) {} []"
  by (simp only: app_unique_names_def app_names_eq app_unique_loop_filter)

lemma app_unique_names_distinct: "distinct (app_unique_names text)"
  by (simp only: app_unique_names_eq app_unique_loop_distinct)

lemma py_strip_idem: "py_strip (py_strip s) = py_strip s"
proof -
  let ?a = "dropWhile py_isspace s"
  let ?b = "dropWhile py_isspace (rev ?a)"
  have "dropWhile py_isspace (rev ?b) = rev ?b"
  proof (cases "?b = []")
    case True show ?thesis by (simp only: True rev.simps dropWhile.simps)
  next
    case False
    have a: "?a \<noteq> []"
    proof
      assume "?a = []"
      then have "?b = []" by (simp only: rev.simps dropWhile.simps)
      with False show False by blast
    qed
    have "rev ?a = takeWhile py_isspace (rev ?a) @ ?b" by simp
    then have "last (rev ?a) = last ?b" using False by (metis last_appendR)
    then have "hd (rev ?b) = hd ?a" using a False by (simp add: hd_rev last_rev)
    moreover have "\<not> py_isspace (hd ?a)" using a by (rule hd_dropWhile)
    ultimately have "\<not> py_isspace (hd (rev ?b))" by simp
    then show ?thesis using False by (cases "rev ?b") auto
  qed
  then show ?thesis by (simp add: py_strip_def)
qed

text \<open>
  C2. Let the lines of a raw text be its pieces between line feeds, each trimmed. The
  normalizer (both copies) returns exactly the trimmed lines of at least 2 characters, each
  once, in the order of their first occurrence: the output is the list of the trimmed lines
  at the positions where the line has at least 2 characters and has not occurred at an
  earlier position. So no output name is empty or shorter than 2 characters, every output
  name is trimmed, no name occurs twice, and every trimmed line of at least 2 characters
  is in the output.
\<close>

theorem normalizer_contract:
  "(let ls = map py_strip (split_char LF text); out = app_unique_names text in
      out = map (\<lambda>i. ls ! i)
              (filter (\<lambda>i. 2 \<le> length (ls ! i) \<and> ls ! i \<notin> set (take i ls)) [0..<length ls]) \<and>
      distinct out \<and>
      set out = {l \<in> set ls. 2 \<le> length l} \<and>
      (\<forall>name \<in> set out. name \<noteq> [] \<and> 2 \<le> length name \<and> py_strip name = name) \<and>
      gui_unique_names text = out)"
proof -
  let ?ls = "map py_strip (split_char LF text)"
  have 1: "app_unique_names text = map (\<lambda>i. ?ls ! i)
      (filter (\<lambda>i. 2 \<le> length (?ls ! i) \<and> ?ls ! i \<notin> set (take i ?ls)) [0..<length ?ls])"
    unfolding app_unique_names_eq app_unique_loop_index by simp
  have 2: "distinct (app_unique_names text)" by (rule app_unique_names_distinct)
  have 3: "set (app_unique_names text) = {l \<in> set ?ls. 2 \<le> length l}"
    unfolding app_unique_names_eq app_unique_loop_set by simp
  have 4: "\<forall>name \<in> set (app_unique_names text). name \<noteq> [] \<and> 2 \<le> length name \<and> py_strip name = name"
    unfolding 3 by (auto simp: py_strip_idem)
  have 5: "gui_unique_names text = app_unique_names text" by (rule gui_unique_names_eq)
  from 1 2 3 4 5 show ?thesis unfolding Let_def by blast
qed

theorem normalizer_contract_witness:
  "app_unique_names [32,65,108,10,10,88,10,66,111,32,13,10,65,108,9,10,32,10] = [[65,108],[66,111]] \<and>
   gui_unique_names [32,65,108,10,10,88,10,66,111,32,13,10,65,108,9,10,32,10] = [[65,108],[66,111]] \<and>
   map py_strip (split_char LF [32,65,108,10,10,88,10,66,111,32,13,10,65,108,9,10,32,10]) =
     [[65,108],[],[88],[66,111],[65,108],[],[]]"
proof -
  have ls: "map py_strip (split_char LF [32,65,108,10,10,88,10,66,111,32,13,10,65,108,9,10,32,10]) =
     [[65,108],[],[88],[66,111],[65,108],[],[]]"
    by (simp add: LF_def py_strip_def py_isspace_def)
  have idx: "[0..<7] = [0,1,2,3,4,5,6::nat]" by (simp add: upt_rec)
  have "app_unique_names [32,65,108,10,10,88,10,66,111,32,13,10,65,108,9,10,32,10] = [[65,108],[66,111]]"
    using normalizer_contract[of "[32,65,108,10,10,88,10,66,111,32,13,10,65,108,9,10,32,10]"]
    unfolding Let_def ls by (simp add: idx)
  moreover have "gui_unique_names [32,65,108,10,10,88,10,66,111,32,13,10,65,108,9,10,32,10] =
      app_unique_names [32,65,108,10,10,88,10,66,111,32,13,10,65,108,9,10,32,10]"
    using normalizer_contract[of "[32,65,108,10,10,88,10,66,111,32,13,10,65,108,9,10,32,10]"]
    unfolding Let_def by blast
  ultimately show ?thesis using ls by simp
qed

section \<open>Submissions and reachable ledgers\<close>

subsection \<open>One submission\<close>

lemma analyze_Inl: "analyze d (Inl e) now = (d, Error e)"
  by (simp add: analyze_def extract_names_with_openai_def)

lemma analyze_None: "analyze d (Inr None) now = (d, Error AttributeError)"
  by (simp add: analyze_def extract_names_with_openai_def)

lemma analyze_empty:
  "app_unique_names content = [] \<Longrightarrow> analyze d (Inr (Some content)) now = (d, Warning)"
  by (simp add: analyze_def extract_names_with_openai_def)

lemma analyze_names:
  assumes "app_unique_names content \<noteq> []"
  shows "analyze d (Inr (Some content)) now =
     (fst (merge d (app_unique_names content) now),
      Success (length (app_unique_names content))
        (length (filter (\<lambda>name. \<not> dict_contains d name) (app_unique_names content))))"
proof -
  define d' where "d' = fst (merge d (app_unique_names content) now)"
  have "merge d (app_unique_names content) now =
      (d', Inr (length (filter (\<lambda>name. \<not> dict_contains d name) (app_unique_names content))))"
    unfolding d'_def
    using merge_eq[of d "app_unique_names content" now]
      card_absent[OF app_unique_names_distinct, of content d] by simp
  then show ?thesis using assms
    by (simp add: analyze_def extract_names_with_openai_def)
qed

lemma do_capture_Some: "do_capture d (Some e) reply now = (d, Error e)"
  by (simp add: do_capture_def)

lemma do_capture_None: "do_capture d None reply now = analyze d reply now"
proof -
  have "gui_extract_names_with_openai reply = extract_names_with_openai reply"
    by (simp add: gui_unique_names_eq extract_names_with_openai_def
        gui_extract_names_with_openai_def split: sum.split option.split)
  then show ?thesis
    by (simp add: do_capture_def analyze_def split: sum.split)
qed

lemma fst_analyze:
  "fst (analyze d reply now) = d \<or> (\<exists>names. fst (analyze d reply now) = fst (merge d names now))"
proof (cases reply)
  case (Inl e) then show ?thesis by (simp add: analyze_Inl)
next
  case (Inr r)
  show ?thesis
  proof (cases r)
    case None with Inr show ?thesis by (simp add: analyze_None)
  next
    case (Some content)
    show ?thesis
    proof (cases "app_unique_names content = []")
      case True with Inr Some show ?thesis by (simp add: analyze_empty)
    next
      case False
      have "fst (analyze d reply now) = fst (merge d (app_unique_names content) now)"
        unfolding Inr Some analyze_names[OF False] by simp
      then show ?thesis by blast
    qed
  qed
qed

lemma fst_do_capture:
  "fst (do_capture d grab reply now) = d \<or>
   (\<exists>names. fst (do_capture d grab reply now) = fst (merge d names now))"
proof (cases grab)
  case None then show ?thesis using fst_analyze[of d reply now] by (simp add: do_capture_None)
next
  case (Some e) then show ?thesis by (simp add: do_capture_Some)
qed

text \<open>
  C7. When the service call raises, or the reply has no content, or the text normalizes to
  no name, the submission leaves the ledger as it was (and reports the error or the
  warning). Otherwise the merge loop runs to its end without raising: the ledger after the
  submission is the merged ledger, in which every normalized name has the time stamp
  appended to its records, so no proper subset of the names is merged. The desktop
  submission does the same after the screen grab, and leaves the ledger as it was when
  the grab raises.
\<close>

theorem submission_atomic:
  "analyze d (Inl e) now = (d, Error e) \<and>
   analyze d (Inr None) now = (d, Error AttributeError) \<and>
   (app_unique_names content = [] \<longrightarrow> analyze d (Inr (Some content)) now = (d, Warning)) \<and>
   (app_unique_names content \<noteq> [] \<longrightarrow>
      (\<exists>d' new_count.
         merge d (app_unique_names content) now = (d', Inr new_count) \<and>
         analyze d (Inr (Some content)) now =
           (d', Success (length (app_unique_names content)) new_count) \<and>
         (\<forall>name \<in> set (app_unique_names content).
            dict_get d' name = Some (records d name @ [now])))) \<and>
   do_capture d (Some e) reply now = (d, Error e) \<and>
   do_capture d None reply now = analyze d reply now"
proof (intro conjI impI)
  assume ne: "app_unique_names content \<noteq> []"
  let ?names = "app_unique_names content"
  have "merge d ?names now = (fst (merge d ?names now), Inr (card (set ?names - set (keys d))))"
    by (rule merge_eq)
  moreover have "analyze d (Inr (Some content)) now =
      (fst (merge d ?names now), Success (length ?names) (card (set ?names - set (keys d))))"
    unfolding analyze_names[OF ne] card_absent[OF app_unique_names_distinct] ..
  moreover have "\<forall>name \<in> set ?names.
      dict_get (fst (merge d ?names now)) name = Some (records d name @ [now])"
    by (simp add: merge_get_distinct[OF app_unique_names_distinct])
  ultimately show "\<exists>d' new_count.
         merge d ?names now = (d', Inr new_count) \<and>
         analyze d (Inr (Some content)) now = (d', Success (length ?names) new_count) \<and>
         (\<forall>name \<in> set ?names. dict_get d' name = Some (records d name @ [now]))"
    by blast
qed (simp_all add: analyze_Inl analyze_None analyze_empty do_capture_Some do_capture_None)

theorem submission_atomic_witness:
  "app_unique_names [32, 10, 88] = [] \<and>
   analyze [([66,111], [[48]])] (Inr (Some [32, 10, 88])) [49] = ([([66,111], [[48]])], Warning) \<and>
   app_unique_names [65,108,10,66,111] \<noteq> [] \<and>
   analyze [([66,111], [[48]])] (Inr (Some [65,108,10,66,111])) [49] =
     ([([66,111], [[48],[49]]), ([65,108], [[49]])], Success 2 1)"
proof -
  have n0: "app_unique_names [32, 10, 88] = []"
    by (simp add: app_unique_names_def app_names_def LF_def py_strip_def py_isspace_def)
  have n2: "app_unique_names [65,108,10,66,111] = [[65,108],[66,111]]"
    by (simp add: app_unique_names_def app_names_def LF_def py_strip_def py_isspace_def)
  have w: "analyze [([66,111], [[48]])] (Inr (Some [32, 10, 88])) [49] = ([([66,111], [[48]])], Warning)"
    using submission_atomic[of "[([66,111], [[48]])]" _ "[49]" "[32, 10, 88]"] n0 by blast
  have m: "merge [([66,111], [[48]])] [[65,108],[66,111]] [49] =
      ([([66,111], [[48],[49]]), ([65,108], [[49]])], Inr 1)"
    by (simp add: merge_def dict_contains_def dict_get_def keys_def)
  have ne: "app_unique_names [65,108,10,66,111] \<noteq> []" by (simp add: n2)
  obtain d' new_count where
    "merge [([66,111], [[48]])] (app_unique_names [65,108,10,66,111]) [49] = (d', Inr new_count)"
    "analyze [([66,111], [[48]])] (Inr (Some [65,108,10,66,111])) [49] =
       (d', Success (length (app_unique_names [65,108,10,66,111])) new_count)"
    using submission_atomic[of "[([66,111], [[48]])]" _ "[49]" "[65,108,10,66,111]"] ne by blast
  with m have "analyze [([66,111], [[48]])] (Inr (Some [65,108,10,66,111])) [49] =
     ([([66,111], [[48],[49]]), ([65,108], [[49]])], Success 2 1)"
    by (simp add: n2)
  with n0 w ne show ?thesis by blast
qed

subsection \<open>The invariant of the reachable ledgers\<close>

lemma merge_records_nonempty:
  assumes "\<forall>n ts. dict_get d n = Some ts \<longrightarrow> ts \<noteq> []"
  shows "\<forall>n ts. dict_get (fst (merge d names now)) n = Some ts \<longrightarrow> ts \<noteq> []"
proof (intro allI impI)
  fix n ts assume g: "dict_get (fst (merge d names now)) n = Some ts"
  show "ts \<noteq> []"
  proof (cases "n \<in> set names")
    case True
    then have "count_list names n \<noteq> 0" by (simp add: count_list_0_iff)
    then obtain k where "count_list names n = Suc k" by (cases "count_list names n") auto
    with g True show ?thesis unfolding merge_def merge_loop_get by auto
  next
    case False
    with g have "dict_get d n = Some ts" unfolding merge_def merge_loop_get by simp
    with assms show ?thesis by blast
  qed
qed

lemma merge_is_dict: "is_dict d \<Longrightarrow> is_dict (fst (merge d names now))"
  unfolding merge_def by (rule merge_loop_is_dict)

lemma reachable_inv:
  "reachable d \<Longrightarrow> is_dict d \<and> (\<forall>n ts. dict_get d n = Some ts \<longrightarrow> ts \<noteq> [])"
proof (induction rule: reachable.induct)
  case initial
  show ?case by (simp add: is_dict_def keys_def dict_get_def)
next
  case (by_merge d names now)
  then show ?case using merge_records_nonempty[of d names now] merge_is_dict[of d names now]
    by blast
next
  case (by_analyze d reply now)
  then show ?case
    using fst_analyze[of d reply now] merge_records_nonempty[of d _ now] merge_is_dict[of d _ now]
    by metis
next
  case (by_do_capture d grab reply now)
  then show ?case
    using fst_do_capture[of d grab reply now] merge_records_nonempty[of d _ now]
      merge_is_dict[of d _ now]
    by metis
next
  case (by_clear d)
  show ?case by (simp add: clear_def is_dict_def keys_def dict_get_def)
next
  case (by_clear_data d confirmed)
  then show ?case by (simp add: clear_data_def clear_def is_dict_def keys_def dict_get_def)
qed

text \<open>
  C6. Every ledger reached from the empty one by merges (bare, or inside a web or desktop
  submission) and clears is a dict (no key twice) in which every entry has at least one
  record.
\<close>

theorem ledger_invariant:
  assumes "reachable d"
  shows "is_dict d \<and> (\<forall>(name, ts) \<in> set d. ts \<noteq> []) \<and>
         (\<forall>name. dict_contains d name \<longrightarrow> records d name \<noteq> [])"
proof -
  from reachable_inv[OF assms] have dd: "is_dict d"
    and ne: "\<And>n ts. dict_get d n = Some ts \<Longrightarrow> ts \<noteq> []" by blast+
  have a: "ts \<noteq> []" if "(name, ts) \<in> set d" for name ts
  proof -
    from dd that have "dict_get d name = Some ts"
      by (simp add: is_dict_def keys_def dict_get_def)
    then show ?thesis by (rule ne)
  qed
  have b: "records d name \<noteq> []" if "dict_contains d name" for name
  proof -
    from that obtain ts where "dict_get d name = Some ts"
      using dict_get_None_iff[of d name] by (auto simp: dict_contains_def)
    then show ?thesis using ne by (simp add: records_def)
  qed
  from dd a b show ?thesis by blast
qed

theorem ledger_invariant_witness:
  "reachable [([65,108], [[49],[50]]), ([66,111], [[50]])] \<and>
   is_dict [([65,108], [[49],[50]]), ([66,111], [[50]])] \<and>
   records [([65,108], [[49],[50]]), ([66,111], [[50]])] [66,111] = [[50]]"
proof -
  have 1: "fst (merge [] [[65,108]] [49]) = [([65,108], [[49]])]"
    by (simp add: merge_def dict_contains_def dict_get_def keys_def)
  have 2: "fst (merge [([65,108], [[49]])] [[65,108],[66,111]] [50]) =
      [([65,108], [[49],[50]]), ([66,111], [[50]])]"
    by (simp add: merge_def dict_contains_def dict_get_def keys_def)
  have "reachable (fst (merge [] [[65,108]] [49]))"
    by (rule reachable.by_merge[OF reachable.initial])
  then have "reachable (fst (merge (fst (merge [] [[65,108]] [49])) [[65,108],[66,111]] [50]))"
    by (rule reachable.by_merge)
  then have r: "reachable [([65,108], [[49],[50]]), ([66,111], [[50]])]"
    by (simp only: 1 2)
  from ledger_invariant[OF r] have "is_dict [([65,108], [[49],[50]]), ([66,111], [[50]])]"
    by blast
  with r show ?thesis by (simp add: records_def dict_get_def)
qed

section \<open>The report\<close>

subsection \<open>Sorting the items of the dict\<close>

lemma sorted_map_fst: "sorted (xs :: ('a::linorder \<times> 'b::linorder) list) \<Longrightarrow> sorted (map fst xs)"
  by (induction xs) (auto simp: less_eq_prod_def)

lemma map_fst_sort: "map fst (sort (d :: ledger)) = sort (map fst d)"
proof -
  have "mset (map fst (sort d)) = mset (map fst d)" by simp
  moreover have "sorted (map fst (sort d))" by (rule sorted_map_fst) simp
  ultimately show ?thesis by (rule properties_for_sort[symmetric])
qed

lemma sort_permutation: "mset d' = mset (d :: ledger) \<Longrightarrow> sort d' = sort d"
  by (rule properties_for_sort) simp_all

lemma build_report_names: "map fst (build_report d) = sort (keys d)"
proof -
  have "map fst (build_report d) = map fst (sort d)"
    by (simp add: build_report_def case_prod_beta comp_def)
  then show ?thesis by (simp add: map_fst_sort keys_def)
qed

text \<open>
  C4. For every ledger the report has exactly one row per entry: as many rows as entries,
  the names of the rows are the keys in strictly ascending lexicographic order, and the
  rows are exactly the entries turned into (name, first record time, number of records),
  where the first record time of a non-empty record list is its first element. The report
  does not depend on the insertion order: two ledgers with the same entries in any order
  give the same report. The desktop list view holds the same rows.
\<close>

theorem report_contract:
  assumes "is_dict d"
  shows "length (build_report d) = length d \<and>
         map fst (build_report d) = sort (keys d) \<and>
         sorted_wrt (<) (map fst (build_report d)) \<and>
         set (build_report d) = (\<lambda>(name, ts). (name, first_time ts, length ts)) ` set d \<and>
         (\<forall>name t ts. dict_get d name = Some (t # ts) \<longrightarrow>
            (name, t, Suc (length ts)) \<in> set (build_report d)) \<and>
         (\<forall>d'. mset d' = mset d \<longrightarrow> build_report d' = build_report d) \<and>
         update_list d = build_report d"
proof (intro conjI allI impI)
  show "length (build_report d) = length d" by (simp add: build_report_def)
  show n: "map fst (build_report d) = sort (keys d)" by (rule build_report_names)
  have "distinct (sort (keys d))" using assms by (simp add: is_dict_def)
  then show "sorted_wrt (<) (map fst (build_report d))"
    unfolding n by (simp add: strict_sorted_iff)
  show s: "set (build_report d) = (\<lambda>(name, ts). (name, first_time ts, length ts)) ` set d"
    by (simp add: build_report_def)
  show "update_list d = build_report d" by (simp add: update_list_def build_report_def)
next
  fix name t ts assume "dict_get d name = Some (t # ts)"
  then have "(name, t # ts) \<in> set d" by (simp add: dict_get_def map_of_SomeD)
  then have "(\<lambda>(name, ts). (name, first_time ts, length ts)) (name, t # ts)
      \<in> (\<lambda>(name, ts). (name, first_time ts, length ts)) ` set d"
    by (rule imageI)
  moreover have "set (build_report d) = (\<lambda>(name, ts). (name, first_time ts, length ts)) ` set d"
    by (simp add: build_report_def)
  ultimately have "(name, first_time (t # ts), length (t # ts)) \<in> set (build_report d)"
    by simp
  then show "(name, t, Suc (length ts)) \<in> set (build_report d)" by (simp add: first_time_def)
next
  fix d' :: ledger assume "mset d' = mset d"
  then have "sort d' = sort d" by (rule sort_permutation)
  then show "build_report d' = build_report d" by (simp only: build_report_def)
qed

theorem report_contract_witness:
  "is_dict [([67,97,114,111,108], [[49]]), ([65,108,105,99,101], [[50],[51]]), ([66,111,98], [[49]])] \<and>
   map fst (build_report
     [([67,97,114,111,108], [[49]]), ([65,108,105,99,101], [[50],[51]]), ([66,111,98], [[49]])]) =
     [[65,108,105,99,101], [66,111,98], [67,97,114,111,108]] \<and>
   build_report [([67,97,114,111,108], [[49]]), ([65,108,105,99,101], [[50],[51]]), ([66,111,98], [[49]])] =
     [([65,108,105,99,101], [50], 2), ([66,111,98], [49], 1), ([67,97,114,111,108], [49], 1)]"
proof -
  let ?d = "[([67,97,114,111,108], [[49]]), ([65,108,105,99,101], [[50],[51::nat]]), ([66,111,98::nat], [[49]])]"
  have h: "is_dict ?d" by (simp add: is_dict_def keys_def)
  have a: "map fst (build_report ?d) = sort (keys ?d)"
    using report_contract[OF h] by blast
  have k: "sort (keys ?d) = [[65,108,105,99,101], [66,111,98], [67,97,114,111,108]]"
    by (simp add: keys_def)
  have b: "build_report ?d =
     [([65,108,105,99,101], [50], 2), ([66,111,98], [49], 1), ([67,97,114,111,108], [49], 1)]"
    by (simp add: build_report_def first_time_def)
  from a have a': "map fst (build_report ?d) = [[65,108,105,99,101], [66,111,98], [67,97,114,111,108]]"
    by (simp only: k)
  from h a' b show ?thesis by (intro conjI)
qed

section \<open>Export and clearing\<close>

subsection \<open>The reader on the text of the writer\<close>

declare py_str_nat.simps [simp del]













subsection \<open>Counts as decimal digits\<close>




subsection \<open>The export\<close>

















subsection \<open>Clearing\<close>

text \<open>
  C8. The clear, \<open>attendance_data = {}\<close> in app.py and \<open>self.attendance_data.clear()\<close> in
  zoom_attendance.py, is unconditional and maps every ledger to the empty ledger. The
  desktop handler clear_data runs it when the user confirms in its dialog, leaves an empty
  ledger empty without asking, and leaves the ledger as it is when the user declines.
  After the clear the report and the list view have no rows, whatever the ledger was; on
  the empty ledger the report, the list view and the export rows are empty and export_csv
  gives the no-data warning, not an exception.
\<close>

theorem clear_contract:
  "clear d = [] \<and> clear_data d True = [] \<and> clear_data [] confirmed = [] \<and>
   (d \<noteq> [] \<longrightarrow> clear_data d False = d) \<and>
   build_report (clear d) = [] \<and> update_list (clear_data d True) = [] \<and>
   build_report [] = [] \<and> update_list [] = [] \<and> csv_data [] = [] \<and> export_rows [] = [] \<and>
   export_csv [] path_chosen io_error = NoData"
  by (simp add: clear_def clear_data_def build_report_def update_list_def csv_data_def
      export_rows_def export_csv_def)

theorem clear_contract_witness:
  "[([65,108], [[49::nat]])] \<noteq> ([] :: ledger) \<and>
   clear_data [([65,108], [[49]])] False = [([65,108], [[49]])] \<and>
   clear_data [([65,108], [[49]])] True = [] \<and>
   build_report (clear [([65,108], [[49]])]) = []"
proof -
  have ne: "[([65,108], [[49::nat]])] \<noteq> ([] :: ledger)" by simp
  have "clear_data [([65,108], [[49]])] False = [([65,108], [[49]])]"
    using clear_contract[of "[([65,108], [[49]])]"] ne by blast
  moreover have "clear_data [([65,108], [[49]])] True = []"
    using clear_contract[of "[([65,108], [[49]])]"] by blast
  moreover have "build_report (clear [([65,108], [[49]])]) = []"
    using clear_contract[of "[([65,108], [[49]])]"] by blast
  ultimately show ?thesis using ne by (intro conjI)
qed

end
